theory Spec2Isabelle
  imports Complex_Main
begin

section \<open>Cube quadruplets: data model\<close>

text \<open>
  The repository searches for integer quadruplets \<open>(a, b, c, d)\<close> with
  \<open>a\<^sup>3 + b\<^sup>3 + c\<^sup>3 = d\<^sup>3\<close>. Python integers are unbounded, so every number is an
  \<open>int\<close>; a quadruplet is the Python 4-tuple, and a result list is a list in
  the order of the \<open>append\<close> calls.
\<close>

type_synonym quad = "int \<times> int \<times> int \<times> int"

text \<open>
  Exceptions that escape a function (they are not caught by the
  \<open>except (ValueError, TypeError)\<close> clauses, which only guard the \<open>int(...)\<close>
  conversions of the arguments).
\<close>

datatype py_exn = OverflowError | ZeroDivisionError

subsection \<open>The tolerance comparison\<close>

text \<open>
  \<open>abs(x) < 1e-10\<close> with an integer \<open>x\<close>: Python compares an \<open>int\<close> with a
  \<open>float\<close> by exact value. The literal \<open>1e-10\<close> denotes the double
  \<open>7737125245533627 / 2^86\<close>.
\<close>

definition tolerance :: rat where
  "tolerance = 7737125245533627 / 2 ^ 86"

definition within_tolerance :: "int \<Rightarrow> bool" where
  "within_tolerance x \<longleftrightarrow> of_int \<bar>x\<bar> < tolerance"

subsection \<open>The floating-point candidate generator\<close>

text \<open>
  \<open>round(x ** (1/3))\<close> for an integer \<open>x > 0\<close> is computed in double precision
  by the language runtime. The searches take it as a parameter: \<open>None\<close> is the
  \<open>OverflowError\<close> that \<open>x ** (1/3)\<close> raises when \<open>x\<close> is too large to convert
  to a double, \<open>Some c\<close> is the rounded result. General theorems hold for every
  such function.
\<close>

type_synonym cube_root = "int \<Rightarrow> int option"

text \<open>
  A concrete generator for evaluating the searches at explicit inputs. The
  conversion of \<open>x\<close> to a double overflows exactly from \<open>2^1024 - 2^970\<close> on
  (round-half-even at 53 bits); below that, the value is the integer nearest
  to the real cube root, the \<open>c\<close> with \<open>(2c-1)\<^sup>3 < 8x < (2c+1)\<^sup>3\<close>. The double
  computation yields the same integer as long as its error stays below one
  half, which is the case for the small arguments evaluated in this theory.
\<close>

fun nearest_from :: "nat \<Rightarrow> int \<Rightarrow> int \<Rightarrow> int" where
  "nearest_from 0 x c = c"
| "nearest_from (Suc k) x c = (if 8 * x < (2 * c + 1) ^ 3 then c else nearest_from k x (c + 1))"

definition nearest_cube_root :: "int \<Rightarrow> int" where
  "nearest_cube_root x = nearest_from (nat x) x 0"

definition float_cube_root :: cube_root where
  "float_cube_root x =
     (if x \<ge> 2 ^ 1024 - 2 ^ 970 then None else Some (nearest_cube_root x))"

subsection \<open>Ranges\<close>

text \<open>\<open>range(hi, lo, -1)\<close>: the integers \<open>hi, hi - 1, ..., lo + 1\<close>.\<close>

definition range_down :: "int \<Rightarrow> int \<Rightarrow> int list" where
  "range_down hi lo = rev [lo + 1 .. hi]"

text \<open>\<open>range(lo, hi)\<close>: the integers \<open>lo, lo + 1, ..., hi - 1\<close>.\<close>

definition range_up :: "int \<Rightarrow> int \<Rightarrow> int list" where
  "range_up lo hi = [lo .. hi - 1]"

section \<open>quadrapulets.py\<close>

text \<open>
  \<open>find_cube_quadruplets(a, n)\<close>: two nested descending loops, appending
  \<open>(a, b, c, d)\<close> whenever \<open>b**3 + c**3 == target\<close>.
\<close>

definition find_cube_quadruplets :: "int \<Rightarrow> int \<Rightarrow> quad list" where
  "find_cube_quadruplets a n =
     (let d = a + n; target = d ^ 3 - a ^ 3
      in [(a, b, c, d). b \<leftarrow> range_down (a - 1) 1, c \<leftarrow> range_down (b - 1) 0,
                        b ^ 3 + c ^ 3 = target])"

section \<open>app-p.py: arithmetic utilities\<close>

text \<open>
  \<open>find_gcd_multiple(*numbers)\<close> is \<open>reduce(gcd, numbers)\<close>. Every call in the
  repository passes four numbers; the model takes the first number and the
  rest, so the empty call (a \<open>TypeError\<close> of \<open>reduce\<close>) cannot be written.
\<close>

definition find_gcd_multiple :: "int \<Rightarrow> int list \<Rightarrow> int" where
  "find_gcd_multiple x xs = foldl gcd x xs"

definition is_primitive_solution :: "int \<Rightarrow> int \<Rightarrow> int \<Rightarrow> int \<Rightarrow> bool" where
  "is_primitive_solution a b c d \<longleftrightarrow> find_gcd_multiple a [b, c, d] = 1"

text \<open>
  \<open>get_primitive_form\<close>: \<open>//\<close> is floor division, which is \<open>div\<close> on \<open>int\<close>;
  dividing by a zero common factor raises \<open>ZeroDivisionError\<close>.
\<close>

definition get_primitive_form ::
  "int \<Rightarrow> int \<Rightarrow> int \<Rightarrow> int \<Rightarrow> py_exn + (int \<times> int \<times> int \<times> int \<times> int)" where
  "get_primitive_form a b c d =
     (let common_factor = find_gcd_multiple a [b, c, d]
      in if common_factor = 0 then Inl ZeroDivisionError
         else Inr (a div common_factor, b div common_factor,
                   c div common_factor, d div common_factor, common_factor))"

text \<open>
  The equation check of \<open>create_results_dataframe\<close> (column \<open>Equation_Check\<close>):
  \<open>left_side == right_side\<close> with \<open>left_side = d**3 - a**3\<close> and
  \<open>right_side = b**3 + c**3\<close>.
\<close>

fun equation_check :: "quad \<Rightarrow> bool" where
  "equation_check (a, b, c, d) \<longleftrightarrow> d ^ 3 - a ^ 3 = b ^ 3 + c ^ 3"

section \<open>app.py: verification\<close>

text \<open>
  \<open>verify_equation_step_by_step(a, b, c, d)\<close> returns a text. The model keeps
  what the text reports: the error line for a non-positive argument; for a
  satisfied equation the alternative-form match and the four constraint lines
  with the summary; otherwise the difference of the two sides.
\<close>

record constraint_report =
  alt_match :: bool
  d_gt_a :: bool
  a_gt_b :: bool
  b_gt_c :: bool
  c_gt_0 :: bool
  all_satisfied :: bool

datatype verify_report =
    NotPositive
  | EquationSatisfied constraint_report
  | EquationNotSatisfied int

definition verify_equation_step_by_step :: "int \<Rightarrow> int \<Rightarrow> int \<Rightarrow> int \<Rightarrow> verify_report" where
  "verify_equation_step_by_step a b c d =
     (if list_ex (\<lambda>x. x \<le> 0) [a, b, c, d] then NotPositive
      else
        let a_cubed = a ^ 3; b_cubed = b ^ 3; c_cubed = c ^ 3; d_cubed = d ^ 3;
            left_side = d_cubed - a_cubed;
            right_side = b_cubed + c_cubed
        in if left_side = right_side then
             let alt_check = a_cubed + b_cubed + c_cubed;
                 constraints = [d > a, a > b, b > c, c > 0]
             in EquationSatisfied
                  \<lparr>alt_match = (alt_check = d_cubed),
                   d_gt_a = constraints ! 0, a_gt_b = constraints ! 1,
                   b_gt_c = constraints ! 2, c_gt_0 = constraints ! 3,
                   all_satisfied = list_all (\<lambda>s. s) constraints\<rparr>
           else EquationNotSatisfied \<bar>left_side - right_side\<bar>)"

section \<open>The single-point searches of app.py and app-p.py\<close>

subsection \<open>One candidate \<open>b\<close>\<close>

text \<open>
  The body of the \<open>for b in range(max_b, 0, -1)\<close> loop after the iteration
  bookkeeping is the same text in \<open>find_cube_quadruplets_improved\<close> and in
  \<open>find_cube_quadruplets_with_factors\<close>. \<open>examine_b\<close> is that body: it raises
  (\<open>Inl\<close>), goes on to the next \<open>b\<close> without a quadruplet (\<open>Inr None\<close>) or
  reaches \<open>quadruplets.append((a, b, c, d))\<close> (\<open>Inr (Some (a, b, c, d))\<close>).
\<close>

definition examine_b :: "cube_root \<Rightarrow> int \<Rightarrow> int \<Rightarrow> int \<Rightarrow> int \<Rightarrow> py_exn + quad option" where
  "examine_b cr a d target_sum b =
     (if b \<ge> a \<or> b \<ge> d then Inr None
      else
        let b_cubed = b ^ 3;
            c_cubed_needed = target_sum - b_cubed
        in if c_cubed_needed \<le> 0 then Inr None
           else
             case cr c_cubed_needed of
               None \<Rightarrow> Inl OverflowError
             | Some c \<Rightarrow>
                 if within_tolerance (c ^ 3 - c_cubed_needed) then
                   if c > 0 \<and> c < b \<and> c < a \<and> c < d \<and> c \<noteq> a \<and> c \<noteq> b \<and> c \<noteq> d then
                     if within_tolerance (a ^ 3 + b ^ 3 + c ^ 3 - d ^ 3)
                     then Inr (Some (a, b, c, d))
                     else Inr None
                   else Inr None
                 else Inr None)"

text \<open>
  The same body with the two tolerance comparisons replaced by exact integer
  equalities, as the specification words the acceptance test.
\<close>

definition examine_b_exact :: "cube_root \<Rightarrow> int \<Rightarrow> int \<Rightarrow> int \<Rightarrow> int \<Rightarrow> py_exn + quad option" where
  "examine_b_exact cr a d target_sum b =
     (if b \<ge> a \<or> b \<ge> d then Inr None
      else
        let needed = target_sum - b ^ 3
        in if needed \<le> 0 then Inr None
           else
             case cr needed of
               None \<Rightarrow> Inl OverflowError
             | Some c \<Rightarrow>
                 if c ^ 3 = needed then
                   if c > 0 \<and> c < b \<and> c < a \<and> c < d \<and> c \<noteq> a \<and> c \<noteq> b \<and> c \<noteq> d then
                     if a ^ 3 + b ^ 3 + c ^ 3 = d ^ 3
                     then Inr (Some (a, b, c, d))
                     else Inr None
                   else Inr None
                 else Inr None)"

subsection \<open>app.py: \<open>find_cube_quadruplets_improved\<close>\<close>

text \<open>
  The loop state: the list \<open>quadruplets\<close>, the counter \<open>iterations\<close>, and
  whether the loop left through the \<open>iterations > max_iterations\<close> branch
  (the branch that writes the "Search stopped" lines and breaks).
\<close>

record search_state =
  quadruplets :: "quad list"
  iterations :: int
  cap_hit :: bool

text \<open>
  What a search returns: the pair of the error text and \<open>[]\<close>, or the pair of
  the report text and the list. The report text is kept as the final loop
  state it is written from.
\<close>

datatype 'st search_return = ErrorReturn | SearchReturn 'st

fun returned_quadruplets :: "('z search_state_scheme) search_return \<Rightarrow> quad list" where
  "returned_quadruplets ErrorReturn = []"
| "returned_quadruplets (SearchReturn st) = quadruplets st"

fun improved_loop ::
  "cube_root \<Rightarrow> int \<Rightarrow> int \<Rightarrow> int \<Rightarrow> int \<Rightarrow> int list \<Rightarrow> search_state \<Rightarrow> py_exn + search_state" where
  "improved_loop cr a d target_sum max_iterations [] st = Inr st"
| "improved_loop cr a d target_sum max_iterations (b # bs) st =
     (let st1 = st\<lparr>iterations := iterations st + 1\<rparr>
      in if iterations st1 > max_iterations then Inr (st1\<lparr>cap_hit := True\<rparr>)
         else
           case examine_b cr a d target_sum b of
             Inl e \<Rightarrow> Inl e
           | Inr None \<Rightarrow> improved_loop cr a d target_sum max_iterations bs st1
           | Inr (Some quadruplet) \<Rightarrow>
               improved_loop cr a d target_sum max_iterations bs
                 (st1\<lparr>quadruplets := quadruplets st1 @ [quadruplet]\<rparr>))"

text \<open>
  The arguments are integers, so the \<open>int(...)\<close> conversions succeed and the
  \<open>except\<close> branch is not taken. A non-positive \<open>max_iterations\<close> is replaced
  by 10000.
\<close>

definition find_cube_quadruplets_improved ::
  "cube_root \<Rightarrow> int \<Rightarrow> int \<Rightarrow> int \<Rightarrow> py_exn + search_state search_return" where
  "find_cube_quadruplets_improved cr a n max_iterations0 =
     (let max_iterations = (if max_iterations0 > 0 then max_iterations0 else 10000)
      in if a \<le> 0 \<or> n \<le> 0 then Inr ErrorReturn
         else
           let d = a + n;
               target_sum = d ^ 3 - a ^ 3;
               max_b = a - 1
           in case improved_loop cr a d target_sum max_iterations (range_down max_b 0)
                     \<lparr>quadruplets = [], iterations = 0, cap_hit = False\<rparr> of
                Inl e \<Rightarrow> Inl e
              | Inr st \<Rightarrow> Inr (SearchReturn st))"

subsection \<open>app-p.py: \<open>find_cube_quadruplets_with_factors\<close>\<close>

record factor_state = search_state +
  primitive_solutions :: "quad list"
  factor_families :: "quad \<rightharpoonup> (quad \<times> int) list"

text \<open>
  \<open>factor_families\<close> is a dictionary from the primitive form to the list of
  its members: a missing key starts with \<open>[]\<close>, then the member is appended.
\<close>

definition group_by_primitive ::
  "quad \<Rightarrow> quad \<times> int \<Rightarrow> (quad \<rightharpoonup> (quad \<times> int) list) \<Rightarrow> (quad \<rightharpoonup> (quad \<times> int) list)" where
  "group_by_primitive primitive_key member families =
     (let members = (case families primitive_key of None \<Rightarrow> [] | Some ms \<Rightarrow> ms)
      in families(primitive_key \<mapsto> members @ [member]))"

text \<open>The factor analysis done when a quadruplet has been appended.\<close>

definition analyze_factors :: "quad \<Rightarrow> factor_state \<Rightarrow> py_exn + factor_state" where
  "analyze_factors quadruplet st =
     (case quadruplet of (a, b, c, d) \<Rightarrow>
        let common_factor = find_gcd_multiple a [b, c, d];
            is_primitive = (common_factor = 1)
        in if is_primitive
           then Inr (st\<lparr>primitive_solutions := primitive_solutions st @ [quadruplet],
                        factor_families :=
                          group_by_primitive (a, b, c, d) (quadruplet, common_factor)
                            (factor_families st)\<rparr>)
           else
             case get_primitive_form a b c d of
               Inl e \<Rightarrow> Inl e
             | Inr (primitive_a, primitive_b, primitive_c, primitive_d, _) \<Rightarrow>
                 Inr (st\<lparr>factor_families :=
                          group_by_primitive (primitive_a, primitive_b, primitive_c, primitive_d)
                            (quadruplet, common_factor) (factor_families st)\<rparr>))"

fun factor_loop ::
  "cube_root \<Rightarrow> int \<Rightarrow> int \<Rightarrow> int \<Rightarrow> int \<Rightarrow> bool \<Rightarrow> int list \<Rightarrow> factor_state \<Rightarrow> py_exn + factor_state" where
  "factor_loop cr a d target_sum max_iterations include_factors [] st = Inr st"
| "factor_loop cr a d target_sum max_iterations include_factors (b # bs) st =
     (let st1 = st\<lparr>iterations := iterations st + 1\<rparr>
      in if iterations st1 > max_iterations then Inr (st1\<lparr>cap_hit := True\<rparr>)
         else
           case examine_b cr a d target_sum b of
             Inl e \<Rightarrow> Inl e
           | Inr None \<Rightarrow> factor_loop cr a d target_sum max_iterations include_factors bs st1
           | Inr (Some quadruplet) \<Rightarrow>
               let st2 = st1\<lparr>quadruplets := quadruplets st1 @ [quadruplet]\<rparr>
               in if include_factors then
                    case analyze_factors quadruplet st2 of
                      Inl e \<Rightarrow> Inl e
                    | Inr st3 \<Rightarrow>
                        factor_loop cr a d target_sum max_iterations include_factors bs st3
                  else factor_loop cr a d target_sum max_iterations include_factors bs st2)"

text \<open>Scaling a quadruplet componentwise.\<close>

fun scale_quad :: "int \<Rightarrow> quad \<Rightarrow> quad" where
  "scale_quad factor (a, b, c, d) = (factor * a, factor * b, factor * c, factor * d)"

text \<open>
  The check guarding a scaled solution in \<open>find_cube_quadruplets_with_factors\<close>:
  \<open>new_d == new_a + (factor * (prim_d - prim_a))\<close>.
\<close>

fun fits_original_constraint :: "int \<Rightarrow> quad \<Rightarrow> bool" where
  "fits_original_constraint factor (prim_a, prim_b, prim_c, prim_d) \<longleftrightarrow>
     (case scale_quad factor (prim_a, prim_b, prim_c, prim_d) of
        (new_a, new_b, new_c, new_d) \<Rightarrow> new_d = new_a + factor * (prim_d - prim_a))"

text \<open>One \<open>factor\<close> of the inner loop over \<open>range(2, max_factor + 1)\<close>.\<close>

definition add_scaled :: "quad \<Rightarrow> quad list \<Rightarrow> int \<Rightarrow> quad list" where
  "add_scaled primitive qs factor =
     (if fits_original_constraint factor primitive then
        let scaled_solution = scale_quad factor primitive
        in if scaled_solution \<notin> set qs then qs @ [scaled_solution] else qs
      else qs)"

definition generate_factor_families :: "int \<Rightarrow> quad list \<Rightarrow> quad list \<Rightarrow> quad list" where
  "generate_factor_families max_factor primitives qs =
     foldl (\<lambda>qs primitive. foldl (add_scaled primitive) qs (range_up 2 (max_factor + 1)))
       qs primitives"

definition find_cube_quadruplets_with_factors ::
  "cube_root \<Rightarrow> int \<Rightarrow> int \<Rightarrow> int \<Rightarrow> bool \<Rightarrow> int \<Rightarrow> py_exn + factor_state search_return" where
  "find_cube_quadruplets_with_factors cr a n max_iterations0 include_factors max_factor0 =
     (let max_iterations = (if max_iterations0 > 0 then max_iterations0 else 10000);
          max_factor = (if max_factor0 > 0 then max_factor0 else 5)
      in if a \<le> 0 \<or> n \<le> 0 then Inr ErrorReturn
         else
           let d = a + n;
               target_sum = d ^ 3 - a ^ 3;
               max_b = a - 1
           in case factor_loop cr a d target_sum max_iterations include_factors
                     (range_down max_b 0)
                     \<lparr>quadruplets = [], iterations = 0, cap_hit = False,
                      primitive_solutions = [], factor_families = Map.empty\<rparr> of
                Inl e \<Rightarrow> Inl e
              | Inr st \<Rightarrow>
                  if include_factors \<and> primitive_solutions st \<noteq> []
                  then Inr (SearchReturn
                         (st\<lparr>quadruplets :=
                              generate_factor_families max_factor (primitive_solutions st)
                                (quadruplets st)\<rparr>))
                  else Inr (SearchReturn st))"

subsection \<open>app-p.py: phase 2 of \<open>find_cube_quadruplets_range_with_factors\<close>\<close>

text \<open>
  The scaled families of the range search: a scaled quadruplet is appended
  when its \<open>a\<close> and its \<open>n = d - a\<close> lie in the (normalised) ranges and it is
  not in the list yet.
\<close>

definition add_scaled_in_range ::
  "int \<Rightarrow> int \<Rightarrow> int \<Rightarrow> int \<Rightarrow> quad \<Rightarrow> quad list \<Rightarrow> int \<Rightarrow> quad list" where
  "add_scaled_in_range a_start a_end n_start n_end primitive all_quadruplets factor =
     (let scaled_quad = scale_quad factor primitive
      in case scaled_quad of (scaled_a, scaled_b, scaled_c, scaled_d) \<Rightarrow>
           let scaled_n = scaled_d - scaled_a
           in if (a_start \<le> scaled_a \<and> scaled_a \<le> a_end) \<and>
                 (n_start \<le> scaled_n \<and> scaled_n \<le> n_end) \<and>
                 scaled_quad \<notin> set all_quadruplets
              then all_quadruplets @ [scaled_quad]
              else all_quadruplets)"

definition generate_scaled_families ::
  "int \<Rightarrow> int \<Rightarrow> int \<Rightarrow> int \<Rightarrow> int \<Rightarrow> quad list \<Rightarrow> quad list \<Rightarrow> quad list" where
  "generate_scaled_families a_start a_end n_start n_end max_factor primitives all_quadruplets =
     foldl (\<lambda>qs primitive.
              foldl (add_scaled_in_range a_start a_end n_start n_end primitive) qs
                (range_up 2 (max_factor + 1)))
       all_quadruplets primitives"

section \<open>Notions used in the statements\<close>

text \<open>
  The constraint of the docstrings and of the interface text: the equation
  \<open>a\<^sup>3 + b\<^sup>3 + c\<^sup>3 = d\<^sup>3\<close> with \<open>d > a > b > c > 0\<close>.
\<close>

fun valid_quadruplet :: "quad \<Rightarrow> bool" where
  "valid_quadruplet (a, b, c, d) \<longleftrightarrow>
     a ^ 3 + b ^ 3 + c ^ 3 = d ^ 3 \<and> d > a \<and> a > b \<and> b > c \<and> c > 0"

text \<open>
  The quadruplets that the loop body appends for the candidates \<open>bs\<close>, in
  the order of \<open>bs\<close>.
\<close>

definition accepted_for :: "cube_root \<Rightarrow> int \<Rightarrow> int \<Rightarrow> int \<Rightarrow> int list \<Rightarrow> quad list" where
  "accepted_for cr a d target_sum bs =
     concat (map (\<lambda>b. case examine_b cr a d target_sum b of
                         Inr (Some quadruplet) \<Rightarrow> [quadruplet] | _ \<Rightarrow> []) bs)"

text \<open>\<open>is_primitive_solution(*quad)\<close> on a tuple.\<close>

definition primitive_quad :: "quad \<Rightarrow> bool" where
  "primitive_quad q = (case q of (a, b, c, d) \<Rightarrow> is_primitive_solution a b c d)"

text \<open>
  The list that \<open>find_cube_quadruplets_with_factors\<close> returns when its loop
  has appended \<open>acc\<close>: the primitive members of \<open>acc\<close> are the list
  \<open>primitive_solutions\<close>, and the family generation runs when
  \<open>include_factors\<close> is set and that list is not empty.
\<close>

definition with_families :: "bool \<Rightarrow> int \<Rightarrow> quad list \<Rightarrow> quad list" where
  "with_families include_factors max_factor0 acc =
     (let max_factor = (if max_factor0 > 0 then max_factor0 else 5);
          primitives = filter primitive_quad acc
      in if include_factors \<and> primitives \<noteq> []
         then generate_factor_families max_factor primitives acc
         else acc)"

section \<open>Basic facts\<close>

lemma tolerance_pos: "0 < tolerance"
  by (simp add: tolerance_def)

lemma tolerance_lt_one: "tolerance < 1"
  by (simp add: tolerance_def)

lemma within_tolerance_iff: "within_tolerance x \<longleftrightarrow> x = 0"
proof
  assume w: "within_tolerance x"
  have "(of_int \<bar>x\<bar> :: rat) < 1"
    using w tolerance_lt_one unfolding within_tolerance_def by linarith
  then have "\<bar>x\<bar> < 1" by (simp only: of_int_less_1_iff)
  then show "x = 0" by linarith
next
  assume "x = 0"
  then show "within_tolerance x"
    using tolerance_pos by (simp add: within_tolerance_def)
qed


lemma examine_b_exact_eq: "examine_b cr a d ts b = examine_b_exact cr a d ts b"
  by (simp add: examine_b_def examine_b_exact_def within_tolerance_iff Let_def
      split: option.splits)

lemma cube_less_imp_less:
  fixes x y :: int
  assumes "x ^ 3 < y ^ 3"
  shows "x < y"
proof (rule ccontr)
  assume "\<not> x < y"
  then have "y \<le> x" by simp
  then have "y ^ 3 \<le> x ^ 3" by (rule power_mono_odd[rotated]) simp
  with assms show False by simp
qed

lemma examine_b_SomeD:
  assumes "examine_b cr a d ts b = Inr (Some q)"
  shows "\<exists>c. q = (a, b, c, d) \<and> cr (ts - b ^ 3) = Some c \<and> c ^ 3 = ts - b ^ 3 \<and>
             0 < c \<and> c < b \<and> b < a \<and> b < d \<and> a ^ 3 + b ^ 3 + c ^ 3 = d ^ 3"
  using assms
  by (auto simp: examine_b_def within_tolerance_iff Let_def split: if_splits option.splits)

lemma examine_b_valid:
  assumes "examine_b cr a d ts b = Inr (Some q)"
  shows "valid_quadruplet q"
proof -
  from examine_b_SomeD[OF assms] obtain c where
    q: "q = (a, b, c, d)" and c: "0 < c" "c < b" "b < a" and eq: "a ^ 3 + b ^ 3 + c ^ 3 = d ^ 3"
    by blast
  have "0 < b ^ 3" "0 < c ^ 3" using c by simp_all
  then have "a ^ 3 < d ^ 3" using eq by linarith
  then have "a < d" by (rule cube_less_imp_less)
  then show ?thesis using q c eq by simp
qed

section \<open>The loops\<close>

lemma accepted_for_Nil [simp]: "accepted_for cr a d ts [] = []"
  by (simp add: accepted_for_def)

lemma accepted_for_Cons:
  "accepted_for cr a d ts (b # bs) =
     (case examine_b cr a d ts b of Inr (Some q) \<Rightarrow> [q] | _ \<Rightarrow> []) @ accepted_for cr a d ts bs"
  by (simp add: accepted_for_def)

lemma accepted_for_append [simp]:
  "accepted_for cr a d ts (bs @ bs') = accepted_for cr a d ts bs @ accepted_for cr a d ts bs'"
  by (simp add: accepted_for_def)

lemma set_accepted_for:
  "set (accepted_for cr a d ts bs) = {q. \<exists>b \<in> set bs. examine_b cr a d ts b = Inr (Some q)}"
  by (auto simp: accepted_for_def split: sum.splits option.splits)

lemma accepted_for_valid: "q \<in> set (accepted_for cr a d ts bs) \<Longrightarrow> valid_quadruplet q"
  by (auto simp: set_accepted_for dest: examine_b_valid)



lemma examine_b_Inl_iff:
  "examine_b cr a d ts b = Inl e \<longleftrightarrow>
     e = OverflowError \<and> b < a \<and> b < d \<and> 0 < ts - b ^ 3 \<and> cr (ts - b ^ 3) = None"
  by (auto simp: examine_b_def Let_def split: option.splits)


lemma length_range_down: "length (range_down hi lo) = nat (hi - lo)"
  by (simp add: range_down_def)

lemma set_range_down: "set (range_down hi lo) = {b. lo < b \<and> b \<le> hi}"
  by (auto simp: range_down_def)


lemma find_gcd_multiple_4: "find_gcd_multiple a [b, c, d] = gcd (gcd (gcd a b) c) d"
  by (simp add: find_gcd_multiple_def)

lemma find_gcd_multiple_0_iff:
  "find_gcd_multiple a [b, c, d] = 0 \<longleftrightarrow> a = 0 \<and> b = 0 \<and> c = 0 \<and> d = 0"
  by (simp add: find_gcd_multiple_4)

lemma analyze_factors_ok:
  assumes "a \<noteq> 0"
  shows "\<exists>fams. analyze_factors (a, b, c, d) st =
           Inr (st\<lparr>primitive_solutions :=
                      primitive_solutions st @ (if primitive_quad (a, b, c, d) then [(a, b, c, d)] else []),
                    factor_families := fams\<rparr>)"
  using assms
  by (auto simp: analyze_factors_def get_primitive_form_def find_gcd_multiple_0_iff
      primitive_quad_def is_primitive_solution_def Let_def)

lemma factor_loop_prefix:
  assumes "\<forall>b \<in> set bs. examine_b cr a d ts b \<noteq> Inl OverflowError"
    and "iterations st + int (length bs) \<le> mi"
  shows "\<exists>fams. factor_loop cr a d ts mi inc (bs @ rest) st =
         factor_loop cr a d ts mi inc rest
           (st\<lparr>quadruplets := quadruplets st @ accepted_for cr a d ts bs,
               iterations := iterations st + int (length bs),
               primitive_solutions := primitive_solutions st @
                 (if inc then filter primitive_quad (accepted_for cr a d ts bs) else []),
               factor_families := fams\<rparr>)"
  using assms
proof (induction bs arbitrary: st)
  case Nil
  have "st = st\<lparr>factor_families := factor_families st\<rparr>" by simp
  then show ?case by (intro exI[of _ "factor_families st"]) simp
next
  case (Cons b bs)
  from Cons.prems have nb: "examine_b cr a d ts b \<noteq> Inl OverflowError"
    and nbs: "\<forall>b \<in> set bs. examine_b cr a d ts b \<noteq> Inl OverflowError"
    and le: "iterations st + 1 + int (length bs) \<le> mi" by simp_all
  show ?case
  proof (cases "examine_b cr a d ts b")
    case (Inl e)
    then show ?thesis using nb by (cases e) (simp_all add: examine_b_Inl_iff)
  next
    case (Inr r)
    show ?thesis
    proof (cases r)
      case None
      let ?st1 = "st\<lparr>iterations := iterations st + 1\<rparr>"
      have step: "factor_loop cr a d ts mi inc ((b # bs) @ rest) st =
            factor_loop cr a d ts mi inc (bs @ rest) ?st1"
        using Inr None le by (simp add: Let_def)
      from Cons.IH[of ?st1] nbs le obtain fams where
        "factor_loop cr a d ts mi inc (bs @ rest) ?st1 =
         factor_loop cr a d ts mi inc rest
           (?st1\<lparr>quadruplets := quadruplets ?st1 @ accepted_for cr a d ts bs,
               iterations := iterations ?st1 + int (length bs),
               primitive_solutions := primitive_solutions ?st1 @
                 (if inc then filter primitive_quad (accepted_for cr a d ts bs) else []),
               factor_families := fams\<rparr>)"
        by auto
      with step show ?thesis using Inr None
        by (intro exI[of _ fams]) (simp add: accepted_for_Cons add.assoc)
    next
      case (Some q)
      from examine_b_SomeD[of cr a d ts b q] Inr Some obtain c where
        q: "q = (a, b, c, d)" and pos: "0 < c" "c < b" "b < a" by auto
      then have a0: "a \<noteq> 0" by simp
      let ?st2 = "st\<lparr>iterations := iterations st + 1, quadruplets := quadruplets st @ [q]\<rparr>"
      show ?thesis
      proof (cases inc)
        case False
        have step: "factor_loop cr a d ts mi inc ((b # bs) @ rest) st =
            factor_loop cr a d ts mi inc (bs @ rest) ?st2"
          using Inr Some le False by (simp add: Let_def)
        from Cons.IH[of ?st2] nbs le obtain fams where
          "factor_loop cr a d ts mi inc (bs @ rest) ?st2 =
           factor_loop cr a d ts mi inc rest
             (?st2\<lparr>quadruplets := quadruplets ?st2 @ accepted_for cr a d ts bs,
               iterations := iterations ?st2 + int (length bs),
               primitive_solutions := primitive_solutions ?st2 @
                 (if inc then filter primitive_quad (accepted_for cr a d ts bs) else []),
               factor_families := fams\<rparr>)"
          by auto
        with step show ?thesis using Inr Some False
          by (intro exI[of _ fams]) (simp add: accepted_for_Cons add.assoc)
      next
        case True
        from analyze_factors_ok[OF a0, of b c d ?st2] obtain fams0 where
          an: "analyze_factors q ?st2 =
             Inr (?st2\<lparr>primitive_solutions :=
                      primitive_solutions ?st2 @ (if primitive_quad q then [q] else []),
                    factor_families := fams0\<rparr>)" (is "_ = Inr ?st3")
          using q by auto
        have step: "factor_loop cr a d ts mi inc ((b # bs) @ rest) st =
            factor_loop cr a d ts mi inc (bs @ rest) ?st3"
          using Inr Some le True an by (simp add: Let_def)
        from Cons.IH[of ?st3] nbs le obtain fams where
          "factor_loop cr a d ts mi inc (bs @ rest) ?st3 =
           factor_loop cr a d ts mi inc rest
             (?st3\<lparr>quadruplets := quadruplets ?st3 @ accepted_for cr a d ts bs,
               iterations := iterations ?st3 + int (length bs),
               primitive_solutions := primitive_solutions ?st3 @
                 (if inc then filter primitive_quad (accepted_for cr a d ts bs) else []),
               factor_families := fams\<rparr>)"
          by auto
        with step show ?thesis using Inr Some True
          by (intro exI[of _ fams]) (simp add: accepted_for_Cons add.assoc)
      qed
    qed
  qed
qed







lemma factor_complete_run:
  assumes a: "0 < a" and n: "0 < n"
    and budget: "a - 1 \<le> (if 0 < mi0 then mi0 else 10000)"
    and nov: "\<forall>b \<in> set (range_down (a - 1) 0).
               examine_b cr a (a + n) ((a + n) ^ 3 - a ^ 3) b \<noteq> Inl OverflowError"
  shows "\<exists>st. find_cube_quadruplets_with_factors cr a n mi0 inc mf = Inr (SearchReturn st) \<and>
           iterations st = a - 1 \<and> \<not> cap_hit st \<and>
           quadruplets st =
             with_families inc mf
               (accepted_for cr a (a + n) ((a + n) ^ 3 - a ^ 3) (range_down (a - 1) 0))"
proof -
  let ?st0 = "\<lparr>quadruplets = [], iterations = 0, cap_hit = False,
               primitive_solutions = [], factor_families = Map.empty\<rparr>"
  let ?bs = "range_down (a - 1) 0"
  let ?d = "a + n" and ?ts = "(a + n) ^ 3 - a ^ 3"
  let ?mi = "if 0 < mi0 then mi0 else 10000"
  have len: "int (length ?bs) = a - 1"
    using a by (simp add: length_range_down)
  from factor_loop_prefix[of ?bs cr a ?d ?ts ?st0 ?mi inc "[]"] nov len budget
  obtain fams where loop:
    "factor_loop cr a ?d ?ts ?mi inc ?bs ?st0 =
     Inr (?st0\<lparr>quadruplets := quadruplets ?st0 @ accepted_for cr a ?d ?ts ?bs,
            iterations := iterations ?st0 + int (length ?bs),
            primitive_solutions := primitive_solutions ?st0 @
               (if inc then filter primitive_quad (accepted_for cr a ?d ?ts ?bs) else []),
            factor_families := fams\<rparr>)"
    by auto
  have top: "find_cube_quadruplets_with_factors cr a n mi0 inc mf =
     (case factor_loop cr a ?d ?ts ?mi inc (range_down (a - 1) 0) ?st0 of
        Inl e \<Rightarrow> Inl e
      | Inr st \<Rightarrow>
          if inc \<and> primitive_solutions st \<noteq> []
          then Inr (SearchReturn
                 (st\<lparr>quadruplets :=
                      generate_factor_families (if mf > 0 then mf else 5) (primitive_solutions st)
                        (quadruplets st)\<rparr>))
          else Inr (SearchReturn st))"
    using a n by (simp add: find_cube_quadruplets_with_factors_def Let_def)
  show ?thesis
    unfolding top loop using len by (simp add: with_families_def Let_def)
qed

section \<open>Soundness of the searches\<close>

lemma improved_loop_sound:
  assumes "improved_loop cr a d ts mi bs st = Inr st'"
  shows "set (quadruplets st') \<subseteq> set (quadruplets st) \<union> set (accepted_for cr a d ts bs)"
  using assms
proof (induction bs arbitrary: st)
  case Nil
  then show ?case by simp
next
  case (Cons b bs)
  show ?case
  proof (cases "iterations st + 1 > mi")
    case True
    with Cons.prems show ?thesis by (auto simp: Let_def)
  next
    case False
    show ?thesis
    proof (cases "examine_b cr a d ts b")
      case (Inl e)
      with Cons.prems False show ?thesis by (simp add: Let_def)
    next
      case (Inr r)
      show ?thesis
      proof (cases r)
        case None
        with Cons.prems False Inr
        have "improved_loop cr a d ts mi bs (st\<lparr>iterations := iterations st + 1\<rparr>) = Inr st'"
          by (simp add: Let_def)
        from Cons.IH[OF this] show ?thesis by (auto simp: accepted_for_Cons)
      next
        case (Some q)
        with Cons.prems False Inr
        have "improved_loop cr a d ts mi bs
                (st\<lparr>iterations := iterations st + 1, quadruplets := quadruplets st @ [q]\<rparr>) = Inr st'"
          by (simp add: Let_def)
        from Cons.IH[OF this] show ?thesis using Inr Some by (auto simp: accepted_for_Cons)
      qed
    qed
  qed
qed

lemma analyze_factors_sound:
  assumes "analyze_factors q st = Inr st'"
  shows "quadruplets st' = quadruplets st \<and> iterations st' = iterations st \<and>
         cap_hit st' = cap_hit st \<and>
         set (primitive_solutions st') \<subseteq> set (primitive_solutions st) \<union> {q}"
  using assms
  by (cases q) (auto simp: analyze_factors_def Let_def split: if_splits sum.splits)

lemma factor_loop_sound:
  assumes "factor_loop cr a d ts mi inc bs st = Inr st'"
  shows "set (quadruplets st') \<subseteq> set (quadruplets st) \<union> set (accepted_for cr a d ts bs) \<and>
         set (primitive_solutions st') \<subseteq>
           set (primitive_solutions st) \<union> set (accepted_for cr a d ts bs)"
  using assms
proof (induction bs arbitrary: st)
  case Nil
  then show ?case by simp
next
  case (Cons b bs)
  show ?case
  proof (cases "iterations st + 1 > mi")
    case True
    with Cons.prems show ?thesis by (auto simp: Let_def)
  next
    case False
    show ?thesis
    proof (cases "examine_b cr a d ts b")
      case (Inl e)
      with Cons.prems False show ?thesis by (simp add: Let_def)
    next
      case (Inr r)
      show ?thesis
      proof (cases r)
        case None
        with Cons.prems False Inr
        have "factor_loop cr a d ts mi inc bs (st\<lparr>iterations := iterations st + 1\<rparr>) = Inr st'"
          by (simp add: Let_def)
        from Cons.IH[OF this] show ?thesis by (auto simp: accepted_for_Cons)
      next
        case (Some q)
        let ?st2 = "st\<lparr>iterations := iterations st + 1, quadruplets := quadruplets st @ [q]\<rparr>"
        show ?thesis
        proof (cases inc)
          case False
          with Cons.prems \<open>\<not> iterations st + 1 > mi\<close> Inr Some
          have "factor_loop cr a d ts mi inc bs ?st2 = Inr st'"
            by (simp add: Let_def)
          from Cons.IH[OF this] show ?thesis using Inr Some by (auto simp: accepted_for_Cons)
        next
          case True
          with Cons.prems \<open>\<not> iterations st + 1 > mi\<close> Inr Some
          obtain st3 where an: "analyze_factors q ?st2 = Inr st3"
            and loop: "factor_loop cr a d ts mi inc bs st3 = Inr st'"
            by (auto simp: Let_def split: sum.splits)
          from analyze_factors_sound[OF an]
          have q3: "quadruplets st3 = quadruplets st @ [q]"
            and p3: "set (primitive_solutions st3) \<subseteq> set (primitive_solutions st) \<union> {q}"
            by simp_all
          from Cons.IH[OF loop] q3 p3 show ?thesis
            using Inr Some by (auto simp: accepted_for_Cons)
        qed
      qed
    qed
  qed
qed

lemma set_range_up: "set (range_up lo hi) = {f. lo \<le> f \<and> f < hi}"
  by (auto simp: range_up_def)

lemma add_scaled_subset:
  "set (add_scaled p qs f) \<subseteq> set qs \<union> {scale_quad f p}"
  by (auto simp: add_scaled_def Let_def)

lemma foldl_add_scaled_subset:
  "set (foldl (add_scaled p) qs fs) \<subseteq> set qs \<union> {scale_quad f p | f. f \<in> set fs}"
proof (induction fs arbitrary: qs)
  case Nil
  then show ?case by simp
next
  case (Cons f fs)
  have "set (foldl (add_scaled p) (add_scaled p qs f) fs)
        \<subseteq> set (add_scaled p qs f) \<union> {scale_quad f' p | f'. f' \<in> set fs}"
    by (rule Cons.IH)
  also have "\<dots> \<subseteq> set qs \<union> {scale_quad f' p | f'. f' \<in> set (f # fs)}"
    using add_scaled_subset[of p qs f] by auto
  finally show ?case by simp
qed

lemma generate_factor_families_subset:
  "set (generate_factor_families mf ps qs)
   \<subseteq> set qs \<union> {scale_quad f p | f p. p \<in> set ps \<and> 2 \<le> f \<and> f \<le> mf}"
  unfolding generate_factor_families_def
proof (induction ps arbitrary: qs)
  case Nil
  then show ?case by simp
next
  case (Cons p ps)
  let ?qs1 = "foldl (add_scaled p) qs (range_up 2 (mf + 1))"
  have "set (foldl (\<lambda>qs primitive. foldl (add_scaled primitive) qs (range_up 2 (mf + 1))) ?qs1 ps)
        \<subseteq> set ?qs1 \<union> {scale_quad f p' | f p'. p' \<in> set ps \<and> 2 \<le> f \<and> f \<le> mf}"
    by (rule Cons.IH)
  moreover have "set ?qs1 \<subseteq> set qs \<union> {scale_quad f p | f. 2 \<le> f \<and> f \<le> mf}"
    using foldl_add_scaled_subset[of p qs "range_up 2 (mf + 1)"]
    by (auto simp: set_range_up)
  ultimately show ?case by fastforce
qed

lemma valid_scale_quad:
  assumes "valid_quadruplet q" "0 < f"
  shows "valid_quadruplet (scale_quad f q)"
proof -
  obtain a b c d where q: "q = (a, b, c, d)" by (cases q)
  with assms have eq: "a ^ 3 + b ^ 3 + c ^ 3 = d ^ 3" and ord: "d > a" "a > b" "b > c" "c > 0"
    by simp_all
  have "(f * a) ^ 3 + (f * b) ^ 3 + (f * c) ^ 3 = f ^ 3 * (a ^ 3 + b ^ 3 + c ^ 3)"
    by (simp add: power_mult_distrib distrib_left)
  then have "(f * a) ^ 3 + (f * b) ^ 3 + (f * c) ^ 3 = (f * d) ^ 3"
    by (simp add: eq power_mult_distrib)
  then show ?thesis using q ord assms(2) by simp
qed

lemma generate_factor_families_valid:
  assumes "\<forall>q \<in> set qs. valid_quadruplet q" "\<forall>p \<in> set ps. valid_quadruplet p"
    and "q \<in> set (generate_factor_families mf ps qs)"
  shows "valid_quadruplet q"
proof -
  from assms(3) generate_factor_families_subset[of mf ps qs]
  consider "q \<in> set qs" | f p where "q = scale_quad f p" "p \<in> set ps" "2 \<le> f"
    by blast
  then show ?thesis
  proof cases
    case 1
    then show ?thesis using assms(1) by simp
  next
    case 2
    then show ?thesis using assms(2) valid_scale_quad[of p f] by simp
  qed
qed

lemma improved_sound:
  assumes "find_cube_quadruplets_improved cr a n mi = Inr r" "q \<in> set (returned_quadruplets r)"
  shows "valid_quadruplet q"
proof (cases "a \<le> 0 \<or> n \<le> 0")
  case True
  with assms show ?thesis by (auto simp: find_cube_quadruplets_improved_def Let_def)
next
  case False
  with assms(1) obtain st where
    loop: "improved_loop cr a (a + n) ((a + n) ^ 3 - a ^ 3) (if 0 < mi then mi else 10000)
             (range_down (a - 1) 0) \<lparr>quadruplets = [], iterations = 0, cap_hit = False\<rparr> = Inr st"
    and r: "r = SearchReturn st"
    by (auto simp: find_cube_quadruplets_improved_def Let_def split: sum.splits)
  from improved_loop_sound[OF loop] assms(2) r
  have "q \<in> set (accepted_for cr a (a + n) ((a + n) ^ 3 - a ^ 3) (range_down (a - 1) 0))"
    by auto
  then show ?thesis by (rule accepted_for_valid)
qed

lemma factors_sound:
  assumes "find_cube_quadruplets_with_factors cr a n mi inc mf = Inr r"
    "q \<in> set (returned_quadruplets r)"
  shows "valid_quadruplet q"
proof (cases "a \<le> 0 \<or> n \<le> 0")
  case True
  with assms show ?thesis by (auto simp: find_cube_quadruplets_with_factors_def Let_def)
next
  case False
  let ?mf = "if 0 < mf then mf else 5"
  from False assms(1) obtain st where
    loop: "factor_loop cr a (a + n) ((a + n) ^ 3 - a ^ 3) (if 0 < mi then mi else 10000) inc
             (range_down (a - 1) 0)
             \<lparr>quadruplets = [], iterations = 0, cap_hit = False,
              primitive_solutions = [], factor_families = Map.empty\<rparr> = Inr st"
    and r: "r = (if inc \<and> primitive_solutions st \<noteq> []
                 then SearchReturn (st\<lparr>quadruplets :=
                        generate_factor_families ?mf (primitive_solutions st) (quadruplets st)\<rparr>)
                 else SearchReturn st)"
    by (auto simp: find_cube_quadruplets_with_factors_def Let_def split: sum.splits if_splits)
  from factor_loop_sound[OF loop]
  have qs: "\<forall>q \<in> set (quadruplets st). valid_quadruplet q"
    and ps: "\<forall>p \<in> set (primitive_solutions st). valid_quadruplet p"
    by (auto dest: accepted_for_valid)
  show ?thesis
  proof (cases "inc \<and> primitive_solutions st \<noteq> []")
    case True
    with r assms(2)
    have "q \<in> set (generate_factor_families ?mf (primitive_solutions st) (quadruplets st))"
      by simp
    with qs ps show ?thesis by (rule generate_factor_families_valid)
  next
    case False
    with r assms(2) qs show ?thesis by auto
  qed
qed

lemma brute_sound:
  assumes "q \<in> set (find_cube_quadruplets a n)"
  shows "valid_quadruplet q"
proof -
  from assms obtain b c where q: "q = (a, b, c, a + n)"
    and b: "1 < b" "b \<le> a - 1" and c: "0 < c" "c \<le> b - 1"
    and eq: "b ^ 3 + c ^ 3 = (a + n) ^ 3 - a ^ 3"
    by (auto simp: find_cube_quadruplets_def Let_def set_range_down)
  have "0 < b ^ 3" "0 < c ^ 3" using b c by simp_all
  then have "a ^ 3 < (a + n) ^ 3" using eq by linarith
  then have "a < a + n" by (rule cube_less_imp_less)
  then show ?thesis using q b c eq by simp
qed

text \<open>
  C1. Every quadruplet \<open>(a', b', c', d')\<close> in the list returned by
  \<open>find_cube_quadruplets_improved\<close>, by \<open>find_cube_quadruplets_with_factors\<close>
  or by \<open>find_cube_quadruplets\<close> satisfies \<open>a'\<^sup>3 + b'\<^sup>3 + c'\<^sup>3 = d'\<^sup>3\<close> in exact
  integer arithmetic and \<open>d' > a' > b' > c' > 0\<close>, and its four components are
  pairwise distinct. This holds for every candidate generator and for all
  arguments.
\<close>

theorem search_sound:
  assumes "(find_cube_quadruplets_improved cr a n max_iterations = Inr r \<and>
              (a', b', c', d') \<in> set (returned_quadruplets r)) \<or>
           (find_cube_quadruplets_with_factors cr a n max_iterations include_factors max_factor
              = Inr r' \<and> (a', b', c', d') \<in> set (returned_quadruplets r')) \<or>
           (a', b', c', d') \<in> set (find_cube_quadruplets a n)"
  shows "a' ^ 3 + b' ^ 3 + c' ^ 3 = d' ^ 3 \<and> d' > a' \<and> a' > b' \<and> b' > c' \<and> c' > 0 \<and>
         distinct [a', b', c', d']"
proof -
  from assms have "valid_quadruplet (a', b', c', d')"
    using improved_sound factors_sound brute_sound by blast
  then show ?thesis by auto
qed

theorem search_sound_witness:
  "(find_cube_quadruplets_improved float_cube_root 5 1 10000 =
      Inr (SearchReturn \<lparr>quadruplets = [(5, 4, 3, 6)], iterations = 4, cap_hit = False\<rparr>) \<and>
    (5, 4, 3, 6) \<in> set (returned_quadruplets
      (SearchReturn \<lparr>quadruplets = [(5, 4, 3, 6)], iterations = 4, cap_hit = False\<rparr>))) \<and>
   ((5::int) ^ 3 + 4 ^ 3 + 3 ^ 3 = 6 ^ 3 \<and> (6::int) > 5 \<and> (5::int) > 4 \<and> (4::int) > 3 \<and> (3::int) > 0 \<and>
    distinct [5, 4, 3, 6::int])"
proof -
  have run: "find_cube_quadruplets_improved float_cube_root 5 1 10000 =
      Inr (SearchReturn \<lparr>quadruplets = [(5, 4, 3, 6)], iterations = 4, cap_hit = False\<rparr>)"
    by code_simp
  have mem: "(5, 4, 3, 6) \<in> set (returned_quadruplets
      (SearchReturn \<lparr>quadruplets = [(5, 4, 3, 6)], iterations = 4, cap_hit = False\<rparr>))"
    by simp
  from run mem have hyp:
    "(find_cube_quadruplets_improved float_cube_root 5 1 10000 =
        Inr (SearchReturn \<lparr>quadruplets = [(5, 4, 3, 6)], iterations = 4, cap_hit = False\<rparr>) \<and>
      (5, 4, 3, 6) \<in> set (returned_quadruplets
        (SearchReturn \<lparr>quadruplets = [(5, 4, 3, 6)], iterations = 4, cap_hit = False\<rparr>))) \<or>
     (find_cube_quadruplets_with_factors float_cube_root 5 1 10000 True 5
        = Inr ErrorReturn \<and> (5, 4, 3, 6) \<in> set (returned_quadruplets (ErrorReturn :: factor_state search_return))) \<or>
     (5, 4, 3, 6) \<in> set (find_cube_quadruplets 5 1)"
    by blast
  from search_sound[OF hyp] run mem show ?thesis by blast
qed

section \<open>The acceptance test\<close>

text \<open>
  C2. The tolerance comparisons \<open>abs(c**3 - c_cubed_needed) < 1e-10\<close> and
  \<open>abs(a**3 + b**3 + c**3 - d**3) < 1e-10\<close> are evaluated on integers, and each
  holds exactly when the corresponding exact integer equality holds: a rounded
  cube-root candidate \<open>c\<close> passes the first test if and only if \<open>c\<^sup>3\<close> equals
  \<open>needed\<close>. Hence the loop body with the tolerance comparisons accepts
  exactly the candidates that the body with exact integer equalities accepts
  (the ordering constraints being the same further filter in both).
\<close>

theorem tolerance_test_exact:
  "(within_tolerance (c ^ 3 - needed) \<longleftrightarrow> c ^ 3 = needed) \<and>
   (within_tolerance (a ^ 3 + b ^ 3 + c ^ 3 - d ^ 3) \<longleftrightarrow> a ^ 3 + b ^ 3 + c ^ 3 = d ^ 3) \<and>
   examine_b cr a d target_sum b = examine_b_exact cr a d target_sum b"
  by (simp add: within_tolerance_iff examine_b_exact_eq)

section \<open>Verification of a literal quadruplet\<close>

text \<open>
  C3, as stated: \<open>verify_equation_step_by_step(3, 4, 5, 6)\<close> reports the
  equation as satisfied and all four ordering checks as true. The report is
  not that one: the checks \<open>a > b\<close> and \<open>b > c\<close> are \<open>3 > 4\<close> and \<open>4 > 5\<close>.
\<close>

theorem verify_3_4_5_6_counterexample:
  "verify_equation_step_by_step 3 4 5 6 \<noteq>
     EquationSatisfied \<lparr>alt_match = True, d_gt_a = True, a_gt_b = True, b_gt_c = True,
                        c_gt_0 = True, all_satisfied = True\<rparr>"
  by (simp add: verify_equation_step_by_step_def)

text \<open>
  C3, amended: \<open>verify_equation_step_by_step(3, 4, 5, 6)\<close> reports the equation
  as satisfied (also in the alternative form), the checks \<open>d > a\<close> and \<open>c > 0\<close>
  as true and the checks \<open>a > b\<close> and \<open>b > c\<close> as false, so not all constraints
  are satisfied; for the same numbers in descending order, \<open>(5, 4, 3, 6)\<close>, it
  reports the equation and all four ordering checks as true.
\<close>

theorem verify_3_4_5_6:
  "verify_equation_step_by_step 3 4 5 6 =
     EquationSatisfied \<lparr>alt_match = True, d_gt_a = True, a_gt_b = False, b_gt_c = False,
                        c_gt_0 = True, all_satisfied = False\<rparr> \<and>
   verify_equation_step_by_step 5 4 3 6 =
     EquationSatisfied \<lparr>alt_match = True, d_gt_a = True, a_gt_b = True, b_gt_c = True,
                        c_gt_0 = True, all_satisfied = True\<rparr>"
  by (simp add: verify_equation_step_by_step_def)

section \<open>Primitive forms and scaling\<close>

lemma gcd4_scale:
  fixes g :: int
  assumes "0 < g"
  shows "gcd (gcd (gcd (g * a) (g * b)) (g * c)) (g * d) = g * gcd (gcd (gcd a b) c) d"
proof -
  have g: "\<bar>g\<bar> = g" using assms by simp
  have "gcd (g * a) (g * b) = g * gcd a b"
    using gcd_mult_distrib_int[of g a b] g by simp
  then have "gcd (gcd (g * a) (g * b)) (g * c) = g * gcd (gcd a b) c"
    using gcd_mult_distrib_int[of g "gcd a b" c] g by simp
  then show ?thesis
    using gcd_mult_distrib_int[of g "gcd (gcd a b) c" d] g by simp
qed

text \<open>
  C8. For positive \<open>a, b, c, d\<close>, \<open>get_primitive_form\<close> returns
  \<open>(a', b', c', d', g)\<close> where \<open>g\<close> is the greatest common divisor of the four
  numbers and \<open>g \<ge> 1\<close>; multiplying \<open>a', b', c', d'\<close> by \<open>g\<close> gives back
  \<open>a, b, c, d\<close>; and the greatest common divisor of \<open>a', b', c', d'\<close>, as
  \<open>find_gcd_multiple\<close> computes it, is 1.
\<close>

theorem primitive_form_round_trip:
  assumes "0 < a" "0 < b" "0 < c" "0 < d"
  shows "\<exists>a' b' c' d' g.
           get_primitive_form a b c d = Inr (a', b', c', d', g) \<and>
           g = Gcd {a, b, c, d} \<and> g \<ge> 1 \<and>
           a' * g = a \<and> b' * g = b \<and> c' * g = c \<and> d' * g = d \<and>
           find_gcd_multiple a' [b', c', d'] = 1"
proof -
  define g where "g = find_gcd_multiple a [b, c, d]"
  have g4: "g = gcd (gcd (gcd a b) c) d" by (simp add: g_def find_gcd_multiple_4)
  have gpos: "0 < g" using assms(1) by (simp add: g4)
  have gGcd: "g = Gcd {a, b, c, d}" by (simp add: g4 ac_simps)
  have dv: "g dvd a" "g dvd b" "g dvd c" "g dvd d"
    unfolding gGcd by (rule Gcd_dvd, simp)+
  then have scaled: "a div g * g = a" "b div g * g = b" "c div g * g = c" "d div g * g = d"
    by simp_all
  have scaled': "g * (a div g) = a" "g * (b div g) = b" "g * (c div g) = c" "g * (d div g) = d"
    using dv by simp_all
  have "g * gcd (gcd (gcd (a div g) (b div g)) (c div g)) (d div g) =
        gcd (gcd (gcd (g * (a div g)) (g * (b div g))) (g * (c div g))) (g * (d div g))"
    by (rule gcd4_scale[OF gpos, symmetric])
  also have "\<dots> = g" unfolding scaled' by (rule g4[symmetric])
  finally have "gcd (gcd (gcd (a div g) (b div g)) (c div g)) (d div g) = 1"
    using gpos by simp
  then have prim: "find_gcd_multiple (a div g) [b div g, c div g, d div g] = 1"
    by (simp add: find_gcd_multiple_4)
  have "get_primitive_form a b c d = Inr (a div g, b div g, c div g, d div g, g)"
    using gpos by (simp add: get_primitive_form_def Let_def g_def)
  moreover have "1 \<le> g" using gpos by simp
  ultimately show ?thesis using gGcd scaled prim by blast
qed

theorem primitive_form_round_trip_witness:
  "get_primitive_form 10 8 6 12 = Inr (5, 4, 3, 6, 2) \<and> (5::int) * 2 = 10 \<and> (4::int) * 2 = 8 \<and>
   (3::int) * 2 = 6 \<and> (6::int) * 2 = 12 \<and> find_gcd_multiple 5 [4, 3, 6] = 1 \<and>
   (2::int) = Gcd {10, 8, 6, 12}"
proof -
  have run: "get_primitive_form 10 8 6 12 = Inr (5, 4, 3, 6, 2)" by code_simp
  from primitive_form_round_trip[of 10 8 6 12] run show ?thesis by auto
qed

lemma equation_check_alt: "equation_check (a, b, c, d) \<longleftrightarrow> a ^ 3 + b ^ 3 + c ^ 3 = d ^ 3"
  by auto

lemma equation_check_scale:
  assumes "equation_check q"
  shows "equation_check (scale_quad f q)"
proof -
  obtain a b c d where q: "q = (a, b, c, d)" by (cases q)
  with assms have eq: "a ^ 3 + b ^ 3 + c ^ 3 = d ^ 3" by (simp add: equation_check_alt)
  have "(f * a) ^ 3 + (f * b) ^ 3 + (f * c) ^ 3 = f ^ 3 * (a ^ 3 + b ^ 3 + c ^ 3)"
    by (simp add: power_mult_distrib distrib_left)
  then have "(f * a) ^ 3 + (f * b) ^ 3 + (f * c) ^ 3 = (f * d) ^ 3"
    by (simp add: eq power_mult_distrib)
  then show ?thesis unfolding q scale_quad.simps equation_check_alt .
qed

lemma add_scaled_in_range_subset:
  "set (add_scaled_in_range a0 a1 n0 n1 p qs f) \<subseteq> set qs \<union> {scale_quad f p}"
  by (cases "scale_quad f p") (auto simp: add_scaled_in_range_def Let_def)

lemma foldl_add_scaled_in_range_subset:
  "set (foldl (add_scaled_in_range a0 a1 n0 n1 p) qs fs)
   \<subseteq> set qs \<union> {scale_quad f p | f. f \<in> set fs}"
proof (induction fs arbitrary: qs)
  case Nil
  then show ?case by simp
next
  case (Cons f fs)
  have "set (foldl (add_scaled_in_range a0 a1 n0 n1 p) (add_scaled_in_range a0 a1 n0 n1 p qs f) fs)
        \<subseteq> set (add_scaled_in_range a0 a1 n0 n1 p qs f) \<union> {scale_quad f' p | f'. f' \<in> set fs}"
    by (rule Cons.IH)
  also have "\<dots> \<subseteq> set qs \<union> {scale_quad f' p | f'. f' \<in> set (f # fs)}"
    using add_scaled_in_range_subset[of a0 a1 n0 n1 p qs f] by auto
  finally show ?case by simp
qed

lemma generate_scaled_families_subset:
  "set (generate_scaled_families a0 a1 n0 n1 mf ps qs)
   \<subseteq> set qs \<union> {scale_quad f p | f p. p \<in> set ps \<and> 2 \<le> f \<and> f \<le> mf}"
  unfolding generate_scaled_families_def
proof (induction ps arbitrary: qs)
  case Nil
  then show ?case by simp
next
  case (Cons p ps)
  let ?qs1 = "foldl (add_scaled_in_range a0 a1 n0 n1 p) qs (range_up 2 (mf + 1))"
  have "set (foldl (\<lambda>qs primitive.
               foldl (add_scaled_in_range a0 a1 n0 n1 primitive) qs (range_up 2 (mf + 1))) ?qs1 ps)
        \<subseteq> set ?qs1 \<union> {scale_quad f p' | f p'. p' \<in> set ps \<and> 2 \<le> f \<and> f \<le> mf}"
    by (rule Cons.IH)
  moreover have "set ?qs1 \<subseteq> set qs \<union> {scale_quad f p | f. 2 \<le> f \<and> f \<le> mf}"
    using foldl_add_scaled_in_range_subset[of a0 a1 n0 n1 p qs "range_up 2 (mf + 1)"]
    by (auto simp: set_range_up)
  ultimately show ?case by fastforce
qed

text \<open>
  C9. If \<open>a\<^sup>3 + b\<^sup>3 + c\<^sup>3 = d\<^sup>3\<close> and \<open>f\<close> is positive, then the componentwise
  scaled quadruplet \<open>(f a, f b, f c, f d)\<close>, which is what the family generators
  build, satisfies the equation too. Hence, when the quadruplets found so far
  and the primitives satisfy the equation, so does every member of the list
  after the family generation of \<open>find_cube_quadruplets_with_factors\<close> and
  after phase 2 of \<open>find_cube_quadruplets_range_with_factors\<close>.
\<close>

theorem scaling_preserves_equation:
  "(a ^ 3 + b ^ 3 + c ^ 3 = d ^ 3 \<and> 0 < f \<longrightarrow>
      (f * a) ^ 3 + (f * b) ^ 3 + (f * c) ^ 3 = (f * d) ^ 3 \<and>
      scale_quad f (a, b, c, d) = (f * a, f * b, f * c, f * d) \<and>
      equation_check (scale_quad f (a, b, c, d))) \<and>
   (list_all equation_check qs \<and> list_all equation_check ps \<longrightarrow>
      list_all equation_check (generate_factor_families max_factor ps qs) \<and>
      list_all equation_check
        (generate_scaled_families a_start a_end n_start n_end max_factor ps qs))"
proof (intro conjI impI)
  assume h: "a ^ 3 + b ^ 3 + c ^ 3 = d ^ 3 \<and> 0 < f"
  then have "equation_check (a, b, c, d)" by (simp add: equation_check_alt)
  then have e: "equation_check (scale_quad f (a, b, c, d))" by (rule equation_check_scale)
  then show "(f * a) ^ 3 + (f * b) ^ 3 + (f * c) ^ 3 = (f * d) ^ 3"
    unfolding scale_quad.simps equation_check_alt .
  show "scale_quad f (a, b, c, d) = (f * a, f * b, f * c, f * d)" by simp
  show "equation_check (scale_quad f (a, b, c, d))" by (rule e)
next
  assume h: "list_all equation_check qs \<and> list_all equation_check ps"
  show "list_all equation_check (generate_factor_families max_factor ps qs)"
    unfolding list_all_iff
  proof
    fix q assume "q \<in> set (generate_factor_families max_factor ps qs)"
    with generate_factor_families_subset[of max_factor ps qs]
    consider "q \<in> set qs" | f p where "q = scale_quad f p" "p \<in> set ps" by blast
    then show "equation_check q"
      using h by cases (auto simp: list_all_iff intro: equation_check_scale)
  qed
  show "list_all equation_check
          (generate_scaled_families a_start a_end n_start n_end max_factor ps qs)"
    unfolding list_all_iff
  proof
    fix q assume "q \<in> set (generate_scaled_families a_start a_end n_start n_end max_factor ps qs)"
    with generate_scaled_families_subset[of a_start a_end n_start n_end max_factor ps qs]
    consider "q \<in> set qs" | f p where "q = scale_quad f p" "p \<in> set ps" by blast
    then show "equation_check q"
      using h by cases (auto simp: list_all_iff intro: equation_check_scale)
  qed
qed

theorem scaling_preserves_equation_witness:
  "((3::int) ^ 3 + 4 ^ 3 + 5 ^ 3 = 6 ^ 3 \<and> (0::int) < 7) \<and>
   ((7 * 3 :: int) ^ 3 + (7 * 4) ^ 3 + (7 * 5) ^ 3 = (7 * 6) ^ 3) \<and>
   (list_all equation_check [(5, 4, 3, 6)] \<and> list_all equation_check [(5, 4, 3, 6)]) \<and>
   generate_factor_families 3 [(5, 4, 3, 6)] [(5, 4, 3, 6)] =
     [(5, 4, 3, 6), (10, 8, 6, 12), (15, 12, 9, 18)] \<and>
   list_all equation_check (generate_factor_families 3 [(5, 4, 3, 6)] [(5, 4, 3, 6)]) \<and>
   generate_scaled_families 1 10 1 5 3 [(5, 4, 3, 6)] [(5, 4, 3, 6)] =
     [(5, 4, 3, 6), (10, 8, 6, 12)] \<and>
   list_all equation_check (generate_scaled_families 1 10 1 5 3 [(5, 4, 3, 6)] [(5, 4, 3, 6)])"
proof -
  have h1: "(3::int) ^ 3 + 4 ^ 3 + 5 ^ 3 = 6 ^ 3 \<and> (0::int) < 7" by simp
  have h2: "list_all equation_check [(5, 4, 3, 6)] \<and> list_all equation_check [(5, 4, 3, 6)]"
    by simp
  have g1: "generate_factor_families 3 [(5, 4, 3, 6)] [(5, 4, 3, 6)] =
     [(5, 4, 3, 6), (10, 8, 6, 12), (15, 12, 9, 18)]" by code_simp
  have g2: "generate_scaled_families 1 10 1 5 3 [(5, 4, 3, 6)] [(5, 4, 3, 6)] =
     [(5, 4, 3, 6), (10, 8, 6, 12)]" by code_simp
  from scaling_preserves_equation[of 3 4 5 6 7 "[(5, 4, 3, 6)]" "[(5, 4, 3, 6)]" 3 1 10 1 5]
    h1 h2 g1 g2
  show ?thesis by blast
qed

section \<open>Parameter handling\<close>




section \<open>The test point \<open>a = 6, n = 3\<close>\<close>

text \<open>
  C6, as stated: the search with \<open>a = 6\<close>, \<open>n = 3\<close> and 20000 iterations returns
  a non-empty list. It returns the empty list, and so does the call of the
  test harness, \<open>find_cube_quadruplets_with_factors(6, 3, 15000, True, 3)\<close>.
\<close>

theorem known_point_counterexample:
  "map_sum id returned_quadruplets (find_cube_quadruplets_improved float_cube_root 6 3 20000) =
     Inr [] \<and>
   map_sum id returned_quadruplets
     (find_cube_quadruplets_with_factors float_cube_root 6 3 15000 True 3) = Inr []"
  by code_simp

text \<open>
  No quadruplet \<open>(6, b, c, 9)\<close> with \<open>9 > 6 > b > c > 0\<close> exists: \<open>b\<^sup>3 + c\<^sup>3\<close>
  would be 513, and it is at most \<open>5\<^sup>3 + 4\<^sup>3 = 189\<close>. (The identity
  \<open>1\<^sup>3 + 6\<^sup>3 + 8\<^sup>3 = 9\<^sup>3\<close> has \<open>c = 8 > a\<close>.)
\<close>

lemma no_quadruplet_6_9:
  assumes "valid_quadruplet (6, b, c, 9)"
  shows False
proof -
  from assms have eq: "b ^ 3 + c ^ 3 = 513" and b: "b < 6" "c < b" "0 < c" by simp_all
  have "b ^ 3 \<le> 5 ^ 3" using b power_mono[of b 5 3] by simp
  moreover have "c ^ 3 \<le> 4 ^ 3" using b power_mono[of c 4 3] by simp
  ultimately show False using eq by simp
qed

lemma accepted_for_6_3: "accepted_for cr 6 9 513 bs = []"
proof (cases "accepted_for cr 6 9 513 bs")
  case Nil
  then show ?thesis .
next
  case (Cons q qs)
  then have q: "q \<in> set (accepted_for cr 6 9 513 bs)" by simp
  then have v: "valid_quadruplet q" by (rule accepted_for_valid)
  from q obtain b where "examine_b cr 6 9 513 b = Inr (Some q)"
    by (auto simp: set_accepted_for)
  from examine_b_SomeD[OF this] obtain c where "q = (6, b, c, 9)" by blast
  with v no_quadruplet_6_9 show ?thesis by blast
qed

lemma improved_6_3_empty:
  assumes "find_cube_quadruplets_improved cr 6 3 mi = Inr r"
  shows "returned_quadruplets r = []"
proof -
  from assms obtain st where
    loop: "improved_loop cr 6 9 513 (if 0 < mi then mi else 10000)
             (range_down 5 0) \<lparr>quadruplets = [], iterations = 0, cap_hit = False\<rparr> = Inr st"
    and r: "r = SearchReturn st"
    by (auto simp: find_cube_quadruplets_improved_def Let_def split: sum.splits)
  from improved_loop_sound[OF loop] have "set (quadruplets st) = {}"
    by (simp add: accepted_for_6_3)
  then show ?thesis using r by simp
qed

lemma factors_6_3_empty:
  assumes "find_cube_quadruplets_with_factors cr 6 3 mi inc mf = Inr r"
  shows "returned_quadruplets r = []"
proof -
  from assms obtain st where
    loop: "factor_loop cr 6 9 513 (if 0 < mi then mi else 10000) inc
             (range_down 5 0)
             \<lparr>quadruplets = [], iterations = 0, cap_hit = False,
              primitive_solutions = [], factor_families = Map.empty\<rparr> = Inr st"
    and r: "r = (if inc \<and> primitive_solutions st \<noteq> []
                 then SearchReturn (st\<lparr>quadruplets :=
                        generate_factor_families (if 0 < mf then mf else 5)
                          (primitive_solutions st) (quadruplets st)\<rparr>)
                 else SearchReturn st)"
    by (auto simp: find_cube_quadruplets_with_factors_def Let_def split: sum.splits if_splits)
  from factor_loop_sound[OF loop]
  have "set (quadruplets st) = {}" "set (primitive_solutions st) = {}"
    by (simp_all add: accepted_for_6_3)
  then show ?thesis using r by simp
qed

text \<open>
  C6, amended: for \<open>a = 6\<close>, \<open>n = 3\<close> every list that a single-point search
  returns is empty, whatever the candidate generator, the iteration budget
  given here and the factor settings; the brute-force search of
  quadrapulets.py returns the empty list as well; and with the concrete
  generator \<open>find_cube_quadruplets_improved\<close> does return, after 5 iterations
  and without hitting the cap.
\<close>

theorem known_point_empty:
  "(find_cube_quadruplets_improved cr 6 3 20000 = Inr r \<longrightarrow> returned_quadruplets r = []) \<and>
   (find_cube_quadruplets_with_factors cr 6 3 15000 include_factors max_factor = Inr r' \<longrightarrow>
      returned_quadruplets r' = []) \<and>
   find_cube_quadruplets 6 3 = [] \<and>
   find_cube_quadruplets_improved float_cube_root 6 3 20000 =
     Inr (SearchReturn \<lparr>quadruplets = [], iterations = 5, cap_hit = False\<rparr>)"
proof (intro conjI impI)
  show "find_cube_quadruplets_improved cr 6 3 20000 = Inr r \<Longrightarrow> returned_quadruplets r = []"
    by (rule improved_6_3_empty)
  show "find_cube_quadruplets_with_factors cr 6 3 15000 include_factors max_factor = Inr r' \<Longrightarrow>
      returned_quadruplets r' = []"
    by (rule factors_6_3_empty)
  show "find_cube_quadruplets 6 3 = []" by code_simp
  show "find_cube_quadruplets_improved float_cube_root 6 3 20000 =
     Inr (SearchReturn \<lparr>quadruplets = [], iterations = 5, cap_hit = False\<rparr>)"
    by code_simp
qed

theorem known_point_empty_witness:
  "find_cube_quadruplets_improved float_cube_root 6 3 20000 =
     Inr (SearchReturn \<lparr>quadruplets = [], iterations = 5, cap_hit = False\<rparr>) \<and>
   returned_quadruplets
     (SearchReturn \<lparr>quadruplets = [], iterations = 5, cap_hit = False\<rparr>) = [] \<and>
   (\<exists>st. find_cube_quadruplets_with_factors float_cube_root 6 3 15000 True 3 =
           Inr (SearchReturn st) \<and> returned_quadruplets (SearchReturn st) = [])"
proof -
  have run: "find_cube_quadruplets_improved float_cube_root 6 3 20000 =
     Inr (SearchReturn \<lparr>quadruplets = [], iterations = 5, cap_hit = False\<rparr>)"
    by code_simp
  have nov: "\<forall>b \<in> set (range_down (6 - 1) 0).
               examine_b float_cube_root 6 (6 + 3) ((6 + 3) ^ 3 - 6 ^ 3) b \<noteq> Inl OverflowError"
    by code_simp
  from factor_complete_run[of 6 3 15000 float_cube_root True 3, OF _ _ _ nov]
  obtain st where run': "find_cube_quadruplets_with_factors float_cube_root 6 3 15000 True 3 =
      Inr (SearchReturn st)"
    by auto
  from known_point_empty[of float_cube_root
      "SearchReturn \<lparr>quadruplets = [], iterations = 5, cap_hit = False\<rparr>" True 3
      "SearchReturn st"] run run'
  show ?thesis by blast
qed

section \<open>The iteration cap\<close>




text \<open>
  The search does not return at all when a needed value is too large for a
  double: here \<open>b = 2\<close> is examined first and \<open>x ** (1/3)\<close> raises.
\<close>

lemma improved_overflow_example:
  "find_cube_quadruplets_improved float_cube_root 3 (2 ^ 342) 1 = Inl OverflowError"
  by code_simp



section \<open>Completeness\<close>





section \<open>The factor search and its input\<close>

lemma add_scaled_mono: "set qs \<subseteq> set (add_scaled p qs f)"
  by (auto simp: add_scaled_def Let_def)

lemma foldl_add_scaled_mono: "set qs \<subseteq> set (foldl (add_scaled p) qs fs)"
proof (induction fs arbitrary: qs)
  case Nil
  then show ?case by simp
next
  case (Cons f fs)
  have "set qs \<subseteq> set (add_scaled p qs f)" by (rule add_scaled_mono)
  also have "\<dots> \<subseteq> set (foldl (add_scaled p) (add_scaled p qs f) fs)" by (rule Cons.IH)
  finally show ?case by simp
qed

lemma fits_original_constraint_always: "fits_original_constraint factor primitive"
  by (cases primitive) (simp add: algebra_simps)

lemma family_of_5_4_3_6:
  assumes "2 \<le> mf"
  shows "(10, 8, 6, 12) \<in> set (with_families True mf [(5, 4, 3, 6)])"
proof -
  have prim: "filter primitive_quad [(5, 4, 3, 6)] = [(5, 4, 3, 6)]" by code_simp
  have mf: "(if 0 < mf then mf else 5) = mf" using assms by simp
  have r: "range_up 2 (mf + 1) = 2 # range_up 3 (mf + 1)"
    using assms by (simp add: range_up_def upto_rec1)
  have "add_scaled (5, 4, 3, 6) [(5, 4, 3, 6)] 2 = [(5, 4, 3, 6), (10, 8, 6, 12)]"
    by (simp add: add_scaled_def)
  then have "(10, 8, 6, 12) \<in> set (add_scaled (5, 4, 3, 6) [(5, 4, 3, 6)] 2)" by simp
  then have "(10, 8, 6, 12) \<in>
      set (foldl (add_scaled (5, 4, 3, 6)) (add_scaled (5, 4, 3, 6) [(5, 4, 3, 6)] 2)
             (range_up 3 (mf + 1)))"
    using foldl_add_scaled_mono by blast
  then show ?thesis
    unfolding with_families_def Let_def mf prim generate_factor_families_def r by simp
qed

text \<open>
  C10. \<open>find_cube_quadruplets_with_factors\<close> is not anchored to its input:
  for \<open>a = 5\<close>, \<open>n = 1\<close> and any \<open>max_factor\<close> of at least 2 it returns
  \<open>(10, 8, 6, 12)\<close>, whose first component is not 5 and whose \<open>d - a\<close> is not
  1. The check that guards a scaled member,
  \<open>new_d == new_a + factor * (prim_d - prim_a)\<close>, holds for every factor and
  every primitive, so it filters nothing.
\<close>

theorem factor_search_not_anchored:
  "(2 \<le> max_factor \<longrightarrow>
      (\<exists>st. find_cube_quadruplets_with_factors float_cube_root 5 1 10000 True max_factor =
               Inr (SearchReturn st) \<and>
             (10, 8, 6, 12) \<in> set (returned_quadruplets (SearchReturn st)) \<and>
             (10::int) \<noteq> 5 \<and> (12::int) - 10 \<noteq> 1)) \<and>
   fits_original_constraint factor (prim_a, prim_b, prim_c, prim_d)"
proof (intro conjI impI)
  assume mf: "2 \<le> max_factor"
  have nov: "\<forall>b \<in> set (range_down (5 - 1) 0).
               examine_b float_cube_root 5 (5 + 1) ((5 + 1) ^ 3 - 5 ^ 3) b \<noteq> Inl OverflowError"
    by code_simp
  have acc: "accepted_for float_cube_root 5 (5 + 1) ((5 + 1) ^ 3 - 5 ^ 3) (range_down (5 - 1) 0) =
               [(5, 4, 3, 6)]"
    by code_simp
  from factor_complete_run[of 5 1 10000 float_cube_root True max_factor, OF _ _ _ nov]
  obtain st where "find_cube_quadruplets_with_factors float_cube_root 5 1 10000 True max_factor =
      Inr (SearchReturn st)" and "quadruplets st = with_families True max_factor [(5, 4, 3, 6)]"
    unfolding acc by auto
  with family_of_5_4_3_6[OF mf]
  show "\<exists>st. find_cube_quadruplets_with_factors float_cube_root 5 1 10000 True max_factor =
               Inr (SearchReturn st) \<and>
             (10, 8, 6, 12) \<in> set (returned_quadruplets (SearchReturn st)) \<and>
             (10::int) \<noteq> 5 \<and> (12::int) - 10 \<noteq> 1"
    by auto
next
  show "fits_original_constraint factor (prim_a, prim_b, prim_c, prim_d)"
    by (rule fits_original_constraint_always)
qed

theorem factor_search_not_anchored_witness:
  "(2::int) \<le> 2 \<and>
   map_sum id returned_quadruplets
     (find_cube_quadruplets_with_factors float_cube_root 5 1 10000 True 2) =
     Inr [(5, 4, 3, 6), (10, 8, 6, 12)] \<and>
   (\<exists>st. find_cube_quadruplets_with_factors float_cube_root 5 1 10000 True 2 =
               Inr (SearchReturn st) \<and>
             (10, 8, 6, 12) \<in> set (returned_quadruplets (SearchReturn st)))"
proof -
  have h: "(2::int) \<le> 2" by simp
  have run: "map_sum id returned_quadruplets
     (find_cube_quadruplets_with_factors float_cube_root 5 1 10000 True 2) =
     Inr [(5, 4, 3, 6), (10, 8, 6, 12)]"
    by code_simp
  from factor_search_not_anchored[of 2] h run show ?thesis by blast
qed

end
